theory Spec2Isabelle
  imports Main "HOL-Library.Word"
begin

unbundle bit_operations_syntax

section \<open>CAN frames and metrics\<close>

type_synonym byte = "8 word"

text \<open>
  \<^verbatim>\<open>can.Frame\<close>: a 32-bit identifier with the SocketCAN flag bits, a length byte and
  a 64-byte payload array. The array is a list here; \<open>frame_ok\<close> is the type's
  invariant that it holds exactly 64 bytes.
\<close>

record Frame =
  CANID :: "32 word"
  Len :: byte
  Data :: "byte list"

definition frame_ok :: "Frame \<Rightarrow> bool" where
  "frame_ok f = (length (Data f) = 64)"

definition CAN_EFF_FLAG :: "32 word" where
  "CAN_EFF_FLAG = 0x80000000"

definition CAN_EFF_MASK :: "32 word" where
  "CAN_EFF_MASK = 0x1FFFFFFF"

text \<open>The zero value of \<^verbatim>\<open>can.Frame\<close> (\<^verbatim>\<open>var f can.Frame\<close>).\<close>

definition zero_frame :: Frame where
  "zero_frame = \<lparr>CANID = 0, Len = 0, Data = replicate 64 0\<rparr>"

text \<open>
  The process-wide counters of package \<^verbatim>\<open>metrics\<close> that the modelled code touches,
  as the \<^verbatim>\<open>uint64\<close> mirrors that \<^verbatim>\<open>metrics.Snap\<close> reads.
\<close>

record Snapshot =
  SerialRx :: "64 word"
  HubDrops :: "64 word"
  HubKicks :: "64 word"
  HubClients :: "64 word"
  Fanout :: "64 word"
  Malformed :: "64 word"
  QueueDepthMax :: "64 word"
  QueueDepthAvg :: "64 word"

text \<open>All counters at zero, as at process start.\<close>

definition snapshot0 :: Snapshot where
  "snapshot0 = \<lparr>SerialRx = 0, HubDrops = 0, HubKicks = 0, HubClients = 0, Fanout = 0,
                 Malformed = 0, QueueDepthMax = 0, QueueDepthAvg = 0\<rparr>"

definition IncMalformed :: "Snapshot \<Rightarrow> Snapshot" where
  "IncMalformed m = m\<lparr>Malformed := Malformed m + 1\<rparr>"

definition IncSerialRx :: "Snapshot \<Rightarrow> Snapshot" where
  "IncSerialRx m = m\<lparr>SerialRx := SerialRx m + 1\<rparr>"

definition IncHubDrop :: "Snapshot \<Rightarrow> Snapshot" where
  "IncHubDrop m = m\<lparr>HubDrops := HubDrops m + 1\<rparr>"

definition IncHubKick :: "Snapshot \<Rightarrow> Snapshot" where
  "IncHubKick m = m\<lparr>HubKicks := HubKicks m + 1\<rparr>"

definition SetHubClients :: "nat \<Rightarrow> Snapshot \<Rightarrow> Snapshot" where
  "SetHubClients n m = m\<lparr>HubClients := of_nat n\<rparr>"

definition SetBroadcastFanout :: "nat \<Rightarrow> Snapshot \<Rightarrow> Snapshot" where
  "SetBroadcastFanout n m = m\<lparr>Fanout := of_nat n\<rparr>"

definition SetQueueDepth :: "nat \<Rightarrow> nat \<Rightarrow> Snapshot \<Rightarrow> Snapshot" where
  "SetQueueDepth mx avg m = m\<lparr>QueueDepthMax := of_nat mx, QueueDepthAvg := of_nat avg\<rparr>"

text \<open>\<^verbatim>\<open>binary.BigEndian.PutUint32\<close> and \<^verbatim>\<open>binary.BigEndian.Uint32\<close>.\<close>

definition PutUint32 :: "32 word \<Rightarrow> byte list" where
  "PutUint32 v = [ucast (drop_bit 24 v), ucast (drop_bit 16 v), ucast (drop_bit 8 v), ucast v]"

definition Uint32 :: "byte list \<Rightarrow> 32 word" where
  "Uint32 b = (ucast (b ! 3)) OR push_bit 8 (ucast (b ! 2)) OR push_bit 16 (ucast (b ! 1))
               OR push_bit 24 (ucast (b ! 0))"

section \<open>Cannelloni codec (package cnl)\<close>

subsection \<open>The byte source and sink\<close>

text \<open>
  An \<^verbatim>\<open>io.Reader\<close> over a finite input: it hands out its bytes in order and, once they
  are used up, reports \<open>rerr\<close> on every read. A \<^verbatim>\<open>bytes.Reader\<close> is the case
  \<open>rerr = EOF\<close>; a connection that fails is any other error.
\<close>

datatype ioerr = EOF | ErrUnexpectedEOF | ErrConn

record Reader =
  rdata :: "byte list"
  rerr :: ioerr

definition Read :: "Reader \<Rightarrow> nat \<Rightarrow> (byte list \<times> ioerr option) \<times> Reader" where
  "Read r n =
     (if rdata r = [] then (([], Some (rerr r)), r)
      else ((take n (rdata r), None), r\<lparr>rdata := drop n (rdata r)\<rparr>))"

text \<open>
  \<^verbatim>\<open>io.ReadFull(r, buf)\<close> is \<^verbatim>\<open>io.ReadAtLeast(r, buf, len(buf))\<close>: read until \<open>n\<close> bytes
  are there or a read fails; a failure with \<^verbatim>\<open>io.EOF\<close> after some bytes is reported
  as \<^verbatim>\<open>io.ErrUnexpectedEOF\<close>. \<open>acc\<close> holds the bytes read so far.
\<close>

function ReadAtLeast :: "Reader \<Rightarrow> nat \<Rightarrow> byte list \<Rightarrow> (byte list \<times> ioerr option) \<times> Reader" where
  "ReadAtLeast r n acc =
     (if length acc < n then
        (case Read r (n - length acc) of
           ((p, None), r') \<Rightarrow> ReadAtLeast r' n (acc @ p)
         | ((p, Some e), r') \<Rightarrow>
             (if length (acc @ p) \<ge> n then ((acc @ p, None), r')
              else if length (acc @ p) > 0 \<and> e = EOF then ((acc @ p, Some ErrUnexpectedEOF), r')
              else ((acc @ p, Some e), r')))
      else ((acc, None), r))"
  by pat_completeness auto
termination
  by (relation "measure (\<lambda>(r, n, acc). n - length acc)")
     (auto simp: Read_def split: if_splits simp flip: length_greater_0_conv)

definition ReadFull :: "Reader \<Rightarrow> nat \<Rightarrow> (byte list \<times> ioerr option) \<times> Reader" where
  "ReadFull r n = ReadAtLeast r n []"

text \<open>
  An \<^verbatim>\<open>io.Writer\<close>: \<open>wroom = None\<close> is a \<^verbatim>\<open>bytes.Buffer\<close>, which takes every write;
  \<open>wroom = Some k\<close> takes \<open>k\<close> more bytes and then fails with a short write.
  \<open>Write\<close> returns the count written and whether it failed.
\<close>

record Writer =
  wbuf :: "byte list"
  wroom :: "nat option"

definition Write :: "Writer \<Rightarrow> byte list \<Rightarrow> (nat \<times> bool) \<times> Writer" where
  "Write w p =
     (case wroom w of
        None \<Rightarrow> ((length p, False), w\<lparr>wbuf := wbuf w @ p\<rparr>)
      | Some k \<Rightarrow>
          (if length p \<le> k then ((length p, False), w\<lparr>wbuf := wbuf w @ p, wroom := Some (k - length p)\<rparr>)
           else ((k, True), w\<lparr>wbuf := wbuf w @ take k p, wroom := Some 0\<rparr>)))"

subsection \<open>Encode\<close>

datatype encerr = EncodeId | EncodeLen | EncodeData

text \<open>
  \<^verbatim>\<open>Codec.EncodeTo\<close>. The result is \<open>None\<close> where the Go code panics: slicing
  \<^verbatim>\<open>f.Data[:ln]\<close> with \<open>ln > 64\<close>. As in the source, the running total counts the
  identifier and payload bytes, and the length byte only when writing it fails.
\<close>

fun EncodeTo :: "Writer \<Rightarrow> Frame list \<Rightarrow> nat \<Rightarrow> ((nat \<times> encerr option) \<times> Writer) option" where
  "EncodeTo w [] tot = Some ((tot, None), w)"
| "EncodeTo w (f # fs) tot =
     (case Write w (PutUint32 (CANID f)) of ((n, err), w1) \<Rightarrow>
        if err then Some ((tot + n, Some EncodeId), w1)
        else (case Write w1 [Len f] of ((n2, err2), w2) \<Rightarrow>
          if err2 then Some ((tot + n + 1, Some EncodeLen), w2)
          else (let ln = unat (Len f AND 0x7F) in
            if ln > 0 then
              (if ln > 64 then None
               else (case Write w2 (take ln (Data f)) of ((n3, err3), w3) \<Rightarrow>
                 if err3 then Some ((tot + n + n3, Some EncodeData), w3)
                 else EncodeTo w3 fs (tot + n + n3)))
            else EncodeTo w2 fs (tot + n))))"

text \<open>\<^verbatim>\<open>Codec.Encode\<close>: the bytes \<^verbatim>\<open>EncodeTo\<close> leaves in a fresh \<^verbatim>\<open>bytes.Buffer\<close>.\<close>

definition Encode :: "Frame list \<Rightarrow> byte list option" where
  "Encode frames =
     (if frames = [] then Some []
      else (case EncodeTo \<lparr>wbuf = [], wroom = None\<rparr> frames 0 of
              None \<Rightarrow> None
            | Some (_, w) \<Rightarrow> Some (wbuf w)))"

subsection \<open>Decode\<close>

text \<open>
  The errors \<^verbatim>\<open>Codec.Decode\<close> returns: a reader error passed through unchanged, the
  wrapped \<^verbatim>\<open>ErrInvalidLength\<close> with the offending length, the wrapped
  \<^verbatim>\<open>ErrTruncatedFrame\<close>, and another reader error wrapped while reading the payload.
\<close>

datatype decerr = ErrIO ioerr | ErrInvalidLength nat | ErrTruncatedFrame | ErrPayload ioerr

definition Decode :: "Reader \<Rightarrow> Snapshot \<Rightarrow> (Frame \<times> decerr option) \<times> Reader \<times> Snapshot" where
  "Decode r m =
     (case ReadFull r 4 of
        ((idb, Some e), r1) \<Rightarrow> ((zero_frame, Some (ErrIO e)), r1, m)
      | ((idb, None), r1) \<Rightarrow>
          (let f = zero_frame\<lparr>CANID := Uint32 idb\<rparr> in
           case Read r1 1 of
             ((lb, Some e), r2) \<Rightarrow> ((f, Some (ErrIO e)), r2, m)
           | ((lb, None), r2) \<Rightarrow>
               (if length lb = 0 then ((f, Some (ErrIO EOF)), r2, m)
                else
                  (let ln = unat (hd lb AND 0x7F) in
                   if ln > 8 then ((f, Some (ErrInvalidLength ln)), r2, IncMalformed m)
                   else
                     (let f = f\<lparr>Len := of_nat ln\<rparr> in
                      if ln > 0 then
                        (case ReadFull r2 ln of
                           ((p, Some e), r3) \<Rightarrow>
                             (let f = f\<lparr>Data := p @ drop (length p) (Data f)\<rparr> in
                              if e = ErrUnexpectedEOF \<or> e = EOF
                              then ((f, Some ErrTruncatedFrame), r3, IncMalformed m)
                              else ((f, Some (ErrPayload e)), r3, IncMalformed m))
                         | ((p, None), r3) \<Rightarrow>
                             ((f\<lparr>Data := p @ drop (length p) (Data f)\<rparr>, None), r3, m))
                      else ((f, None), r2, m))))))"

subsection \<open>Facts about the reader and the big-endian conversions\<close>

lemma Uint32_PutUint32: "Uint32 (PutUint32 v) = v"
proof (rule bit_word_eqI)
  fix n :: nat
  assume "n < LENGTH(32)"
  then consider "n < 8" | "8 \<le> n \<and> n < 16" | "16 \<le> n \<and> n < 24" | "24 \<le> n \<and> n < 32"
    by fastforce
  then show "bit (Uint32 (PutUint32 v)) n = bit v n"
    unfolding Uint32_def PutUint32_def
    by cases (auto simp: bit_simps)
qed

declare ReadAtLeast.simps [simp del]

lemma ReadFull_eq:
  "ReadFull r n =
     (if n = 0 then (([], None), r)
      else if n \<le> length (rdata r) then ((take n (rdata r), None), r\<lparr>rdata := drop n (rdata r)\<rparr>)
      else if rdata r = [] then (([], Some (rerr r)), r)
      else ((rdata r, Some (if rerr r = EOF then ErrUnexpectedEOF else rerr r)), r\<lparr>rdata := []\<rparr>))"
  unfolding ReadFull_def
  apply (subst ReadAtLeast.simps)
  apply (subst ReadAtLeast.simps)
  apply (subst ReadAtLeast.simps)
  apply (auto simp: Read_def)
  done

lemma len_mask: "unat (l::byte) \<le> 8 \<Longrightarrow> l AND 0x7F = l"
proof -
  assume a: "unat l \<le> 8"
  have "l < 2 ^ 7" using a by (simp add: word_less_nat_alt)
  then have "l AND mask 7 = l" by (rule less_mask_eq)
  then show ?thesis by (simp add: mask_eq_exp_minus_1)
qed

lemma Decode_shrinks:
  "Decode r m = ((f, None), r', m') \<Longrightarrow> length (rdata r') < length (rdata r)"
  unfolding Decode_def ReadFull_eq Read_def Let_def
  by (auto split: if_splits prod.splits option.splits)

function DecodeN_loop ::
  "Reader \<Rightarrow> Snapshot \<Rightarrow> int \<Rightarrow> int \<Rightarrow> Frame list
     \<Rightarrow> ((int \<times> decerr option) \<times> Frame list) \<times> Reader \<times> Snapshot" where
  "DecodeN_loop r m mx n out =
     (if mx \<le> 0 \<or> n < mx then
        (case Decode r m of
           ((fr, Some e), r', m') \<Rightarrow> (((n, Some e), out), r', m')
         | ((fr, None), r', m') \<Rightarrow> DecodeN_loop r' m' mx (n + 1) (out @ [fr]))
      else (((n, None), out), r, m))"
  by pat_completeness auto
termination
  by (relation "measure (\<lambda>(r, m, mx, n, out). length (rdata r))")
     (auto dest: Decode_shrinks [OF sym])

declare DecodeN_loop.simps [simp del]

definition DecodeN :: "Reader \<Rightarrow> Snapshot \<Rightarrow> int \<Rightarrow> ((int \<times> decerr option) \<times> Frame list) \<times> Reader \<times> Snapshot" where
  "DecodeN r m mx = DecodeN_loop r m mx 0 []"

lemma length_PutUint32: "length (PutUint32 v) = 4"
  by (simp add: PutUint32_def)

definition wire1 :: "Frame \<Rightarrow> byte list" where
  "wire1 f = PutUint32 (CANID f) @ [Len f] @ take (unat (Len f)) (Data f)"

definition same_frame :: "Frame \<Rightarrow> Frame \<Rightarrow> bool" where
  "same_frame f g =
     (CANID g = CANID f \<and> Len g = Len f \<and>
      take (unat (Len g)) (Data g) = take (unat (Len f)) (Data f))"

lemma EncodeTo_buffer:
  "\<forall>f\<in>set fs. frame_ok f \<and> unat (Len f) \<le> 8 \<Longrightarrow> wroom w = None \<Longrightarrow>
   \<exists>tot'. EncodeTo w fs tot = Some ((tot', None), w\<lparr>wbuf := wbuf w @ concat (map wire1 fs)\<rparr>)"
proof (induction fs arbitrary: w tot)
  case Nil
  then show ?case by simp
next
  case (Cons f fs)
  then have ln: "unat (Len f) \<le> 8" and rest: "\<forall>f\<in>set fs. frame_ok f \<and> unat (Len f) \<le> 8"
    by simp_all
  have m: "Len f AND 0x7F = Len f" using ln by (rule len_mask)
  define w' where "w' = w\<lparr>wbuf := wbuf w @ wire1 f\<rparr>"
  define tot1 where "tot1 = tot + 4 + (if unat (Len f) > 0 then length (take (unat (Len f)) (Data f)) else 0)"
  have w'room: "wroom w' = None" using Cons.prems(2) by (simp add: w'_def)
  from Cons.IH [OF rest w'room, of tot1] obtain tot' where
    ih: "EncodeTo w' fs tot1 = Some ((tot', None), w'\<lparr>wbuf := wbuf w' @ concat (map wire1 fs)\<rparr>)"
    by blast
  have step: "EncodeTo w (f # fs) tot = EncodeTo w' fs tot1"
    using Cons.prems(2) m ln
    by (simp add: Write_def Let_def w'_def tot1_def wire1_def length_PutUint32)
  show ?case using ih step by (simp add: w'_def)
qed

lemma Decode_wire1:
  assumes "frame_ok f" and "unat (Len f) \<le> 8"
  shows "\<exists>g. Decode \<lparr>rdata = wire1 f @ rest, rerr = e\<rparr> m = ((g, None), \<lparr>rdata = rest, rerr = e\<rparr>, m)
             \<and> same_frame f g"
proof -
  have m: "Len f AND 0x7F = Len f" using assms(2) by (rule len_mask)
  have l4: "length (PutUint32 (CANID f)) = 4" by (simp add: PutUint32_def)
  have tk: "take 4 (wire1 f @ rest) = PutUint32 (CANID f)"
    and dr: "drop 4 (wire1 f @ rest) = [Len f] @ take (unat (Len f)) (Data f) @ rest"
    by (simp_all add: wire1_def l4)
  have ld: "length (take (unat (Len f)) (Data f)) = unat (Len f)"
    using assms by (simp add: frame_ok_def)
  show ?thesis
    unfolding Decode_def ReadFull_eq Read_def
    using assms m ld
    by (simp add: tk dr Uint32_PutUint32 Let_def same_frame_def zero_frame_def wire1_def l4)
qed

lemma Decode_empty:
  "Decode \<lparr>rdata = [], rerr = e\<rparr> m = ((zero_frame, Some (ErrIO e)), \<lparr>rdata = [], rerr = e\<rparr>, m)"
  by (simp add: Decode_def ReadFull_eq)

lemma DecodeN_loop_wire:
  assumes "\<forall>f\<in>set fs. frame_ok f \<and> unat (Len f) \<le> 8" and "mx \<le> 0"
  shows "\<exists>out'. DecodeN_loop \<lparr>rdata = concat (map wire1 fs), rerr = EOF\<rparr> m mx n out =
            (((n + int (length fs), Some (ErrIO EOF)), out @ out'), \<lparr>rdata = [], rerr = EOF\<rparr>, m)
          \<and> list_all2 same_frame fs out'"
  using assms(1)
proof (induction fs arbitrary: n out)
  case Nil
  show ?case
    using assms(2) by (subst DecodeN_loop.simps) (simp add: Decode_empty)
next
  case (Cons f fs)
  then have f: "frame_ok f" "unat (Len f) \<le> 8" and rest: "\<forall>f\<in>set fs. frame_ok f \<and> unat (Len f) \<le> 8"
    by simp_all
  from Decode_wire1 [OF f, of "concat (map wire1 fs)" EOF m] obtain g where
    g: "Decode \<lparr>rdata = wire1 f @ concat (map wire1 fs), rerr = EOF\<rparr> m =
          ((g, None), \<lparr>rdata = concat (map wire1 fs), rerr = EOF\<rparr>, m)" and sg: "same_frame f g"
    by blast
  from Cons.IH [OF rest, of "n + 1" "out @ [g]"] obtain out' where
    ih: "DecodeN_loop \<lparr>rdata = concat (map wire1 fs), rerr = EOF\<rparr> m mx (n + 1) (out @ [g]) =
           (((n + 1 + int (length fs), Some (ErrIO EOF)), (out @ [g]) @ out'), \<lparr>rdata = [], rerr = EOF\<rparr>, m)"
      and so: "list_all2 same_frame fs out'"
    by blast
  have "DecodeN_loop \<lparr>rdata = concat (map wire1 (f # fs)), rerr = EOF\<rparr> m mx n out =
          (((n + int (length (f # fs)), Some (ErrIO EOF)), out @ (g # out')), \<lparr>rdata = [], rerr = EOF\<rparr>, m)"
    using assms(2) g ih by (subst DecodeN_loop.simps) simp
  moreover have "list_all2 same_frame (f # fs) (g # out')" using sg so by simp
  ultimately show ?case by blast
qed

text \<open>
  Claim C2. For every list of frames with payload lengths 0 to 8 (identifiers of at most
  29 bits included), \<^verbatim>\<open>Encode\<close> does not panic, and \<^verbatim>\<open>DecodeN\<close> without a maximum over a
  \<^verbatim>\<open>bytes.Reader\<close> of the encoded bytes hands back one frame per original frame, with the
  same identifier, the same length and the same first \<open>Len\<close> payload bytes, counts them, and
  ends with the clean \<^verbatim>\<open>io.EOF\<close>, the reader empty and the counters untouched.
\<close>

theorem cnl_roundtrip:
  assumes "\<forall>f\<in>set fs. frame_ok f \<and> CANID f \<le> CAN_EFF_MASK \<and> unat (Len f) \<le> 8" and "mx \<le> 0"
  shows "\<exists>wire out. Encode fs = Some wire
           \<and> DecodeN \<lparr>rdata = wire, rerr = EOF\<rparr> m mx =
               (((int (length fs), Some (ErrIO EOF)), out), \<lparr>rdata = [], rerr = EOF\<rparr>, m)
           \<and> list_all2 same_frame fs out"
proof -
  have ok: "\<forall>f\<in>set fs. frame_ok f \<and> unat (Len f) \<le> 8" using assms(1) by blast
  from EncodeTo_buffer [OF ok, of "\<lparr>wbuf = [], wroom = None\<rparr>" 0] obtain tot' where
    "EncodeTo \<lparr>wbuf = [], wroom = None\<rparr> fs 0 = Some ((tot', None), \<lparr>wbuf = concat (map wire1 fs), wroom = None\<rparr>)"
    by auto
  then have enc: "Encode fs = Some (concat (map wire1 fs))"
    by (cases fs) (simp_all add: Encode_def)
  from DecodeN_loop_wire [OF ok assms(2), of m 0 "[]"] obtain out where
    "DecodeN \<lparr>rdata = concat (map wire1 fs), rerr = EOF\<rparr> m mx =
       (((int (length fs), Some (ErrIO EOF)), out), \<lparr>rdata = [], rerr = EOF\<rparr>, m)"
    and "list_all2 same_frame fs out"
    by (auto simp: DecodeN_def)
  with enc show ?thesis by blast
qed

definition frame_123 :: Frame where
  "frame_123 = \<lparr>CANID = 0x123, Len = 3, Data = [1, 2, 3] @ replicate 61 0\<rparr>"

theorem cnl_roundtrip_witness:
  "frame_ok frame_123 \<and> CANID frame_123 \<le> CAN_EFF_MASK \<and> unat (Len frame_123) \<le> 8 \<and>
   (\<exists>wire out. Encode [frame_123] = Some wire
      \<and> DecodeN \<lparr>rdata = wire, rerr = EOF\<rparr> snapshot0 0 =
               (((int (length [frame_123]), Some (ErrIO EOF)), out), \<lparr>rdata = [], rerr = EOF\<rparr>, snapshot0)
      \<and> list_all2 same_frame [frame_123] out)"
proof -
  have h: "\<forall>f\<in>set [frame_123]. frame_ok f \<and> CANID f \<le> CAN_EFF_MASK \<and> unat (Len f) \<le> 8"
    by (simp add: frame_123_def frame_ok_def CAN_EFF_MASK_def)
  show ?thesis using h cnl_roundtrip [OF h, of 0 snapshot0] by simp
qed

lemma Decode_lt4:
  assumes "length (rdata r) < 4"
  shows "\<exists>e r'. Decode r m = ((zero_frame, Some (ErrIO e)), r', m)
           \<and> e = (if rdata r = [] then rerr r else if rerr r = EOF then ErrUnexpectedEOF else rerr r)"
  using assms by (simp add: Decode_def ReadFull_eq)

lemma Decode_eq4:
  assumes "length (rdata r) = 4"
  shows "\<exists>f r'. Decode r m = ((f, Some (ErrIO (rerr r))), r', m)"
  using assms by (simp add: Decode_def ReadFull_eq Read_def Let_def)

lemma Decode_invalid:
  assumes "5 \<le> length (rdata r)" and "8 < unat (rdata r ! 4 AND 0x7F)"
  shows "\<exists>f r'. Decode r m = ((f, Some (ErrInvalidLength (unat (rdata r ! 4 AND 0x7F)))), r', IncMalformed m)"
proof -
  have ne: "drop 4 (rdata r) \<noteq> []" using assms(1) by simp
  have hd: "hd (take (Suc 0) (drop 4 (rdata r))) = rdata r ! 4"
    using assms(1) by (simp add: hd_drop_conv_nth)
  show ?thesis
    using assms ne by (simp add: Decode_def ReadFull_eq Read_def Let_def hd)
qed

lemma Decode_short_payload:
  assumes "5 \<le> length (rdata r)" and "unat (rdata r ! 4 AND 0x7F) \<le> 8"
    and "length (rdata r) < 5 + unat (rdata r ! 4 AND 0x7F)"
  shows "\<exists>f r'. Decode r m =
           ((f, Some (if rerr r = ErrUnexpectedEOF \<or> rerr r = EOF then ErrTruncatedFrame
                      else ErrPayload (rerr r))), r', IncMalformed m)"
proof -
  have ne: "drop 4 (rdata r) \<noteq> []" using assms(1) by simp
  have hd: "hd (take (Suc 0) (drop 4 (rdata r))) = rdata r ! 4"
    using assms(1) by (simp add: hd_drop_conv_nth)
  have pos: "0 < unat (rdata r ! 4 AND 0x7F)" using assms(1,3) by linarith
  have short: "\<not> unat (rdata r ! 4 AND 0x7F) \<le> length (rdata r) - 5" using assms(1,3) by linarith
  show ?thesis
    using assms(2) ne pos short by (simp add: Decode_def ReadFull_eq Read_def Let_def hd)
qed

lemma Decode_complete:
  assumes "5 \<le> length (rdata r)" and "unat (rdata r ! 4 AND 0x7F) \<le> 8"
    and "5 + unat (rdata r ! 4 AND 0x7F) \<le> length (rdata r)"
  shows "\<exists>f r'. Decode r m = ((f, None), r', m)"
proof -
  have ne: "drop 4 (rdata r) \<noteq> []" using assms(1) by simp
  have hd: "hd (take (Suc 0) (drop 4 (rdata r))) = rdata r ! 4"
    using assms(1) by (simp add: hd_drop_conv_nth)
  have full: "unat (rdata r ! 4 AND 0x7F) \<le> length (rdata r) - 5" using assms(1,3) by linarith
  show ?thesis
    using assms(2) ne full by (simp add: Decode_def ReadFull_eq Read_def Let_def hd)
qed

definition decode_err :: "Reader \<Rightarrow> Snapshot \<Rightarrow> decerr option" where
  "decode_err r m = snd (fst (Decode r m))"

definition decode_metrics :: "Reader \<Rightarrow> Snapshot \<Rightarrow> Snapshot" where
  "decode_metrics r m = snd (snd (Decode r m))"

fun is_malformed :: "decerr option \<Rightarrow> bool" where
  "is_malformed (Some (ErrInvalidLength k)) = True"
| "is_malformed (Some ErrTruncatedFrame) = True"
| "is_malformed (Some (ErrPayload e)) = True"
| "is_malformed _ = False"

lemma Decode_malformed_count:
  "Malformed (decode_metrics r m) =
     (if is_malformed (decode_err r m) then Malformed m + 1 else Malformed m)"
proof -
  let ?ln = "unat (rdata r ! 4 AND 0x7F)"
  consider "length (rdata r) < 4" | "length (rdata r) = 4"
    | "5 \<le> length (rdata r)" "8 < ?ln"
    | "5 \<le> length (rdata r)" "?ln \<le> 8" "length (rdata r) < 5 + ?ln"
    | "5 \<le> length (rdata r)" "?ln \<le> 8" "5 + ?ln \<le> length (rdata r)"
    by linarith
  then show ?thesis
  proof cases
    case 1
    from Decode_lt4 [OF 1, of m] show ?thesis
      by (auto simp: decode_err_def decode_metrics_def)
  next
    case 2
    from Decode_eq4 [OF 2, of m] show ?thesis
      by (auto simp: decode_err_def decode_metrics_def)
  next
    case 3
    from Decode_invalid [OF 3, of m] show ?thesis
      by (auto simp: decode_err_def decode_metrics_def IncMalformed_def)
  next
    case 4
    from Decode_short_payload [OF 4, of m] show ?thesis
      by (auto simp: decode_err_def decode_metrics_def IncMalformed_def split: if_splits)
  next
    case 5
    from Decode_complete [OF 5, of m] show ?thesis
      by (auto simp: decode_err_def decode_metrics_def)
  qed
qed

text \<open>
  Claim C5. When the length byte masked to seven bits exceeds 8, \<^verbatim>\<open>Decode\<close> fails with the
  wrapped \<^verbatim>\<open>ErrInvalidLength\<close>; when the input ends before the declared payload is complete
  it fails with the wrapped \<^verbatim>\<open>ErrTruncatedFrame\<close>; and the malformed counter goes up by
  exactly one on every malformed outcome and stays as it is on every other outcome.
  The witness is scenarios S2 and S3.
\<close>

theorem cnl_decode_error_discipline:
  "(5 \<le> length (rdata r) \<and> 8 < unat (rdata r ! 4 AND 0x7F)
      \<longrightarrow> decode_err r m = Some (ErrInvalidLength (unat (rdata r ! 4 AND 0x7F)))
          \<and> Malformed (decode_metrics r m) = Malformed m + 1)
   \<and> (5 \<le> length (rdata r) \<and> unat (rdata r ! 4 AND 0x7F) \<le> 8
        \<and> length (rdata r) < 5 + unat (rdata r ! 4 AND 0x7F) \<and> rerr r = EOF
      \<longrightarrow> decode_err r m = Some ErrTruncatedFrame
          \<and> Malformed (decode_metrics r m) = Malformed m + 1)
   \<and> Malformed (decode_metrics r m) =
        (if is_malformed (decode_err r m) then Malformed m + 1 else Malformed m)"
proof (intro conjI impI)
  assume a: "5 \<le> length (rdata r) \<and> 8 < unat (rdata r ! 4 AND 0x7F)"
  then have "5 \<le> length (rdata r)" and "8 < unat (rdata r ! 4 AND 0x7F)" by simp_all
  from Decode_invalid [OF this, of m]
  show "decode_err r m = Some (ErrInvalidLength (unat (rdata r ! 4 AND 0x7F)))"
    and "Malformed (decode_metrics r m) = Malformed m + 1"
    by (auto simp: decode_err_def decode_metrics_def IncMalformed_def)
next
  assume a: "5 \<le> length (rdata r) \<and> unat (rdata r ! 4 AND 0x7F) \<le> 8
        \<and> length (rdata r) < 5 + unat (rdata r ! 4 AND 0x7F) \<and> rerr r = EOF"
  then have h: "5 \<le> length (rdata r)" "unat (rdata r ! 4 AND 0x7F) \<le> 8"
    "length (rdata r) < 5 + unat (rdata r ! 4 AND 0x7F)" and e: "rerr r = EOF" by simp_all
  from Decode_short_payload [OF h, of m] e
  show "decode_err r m = Some ErrTruncatedFrame"
    and "Malformed (decode_metrics r m) = Malformed m + 1"
    by (auto simp: decode_err_def decode_metrics_def IncMalformed_def)
next
  show "Malformed (decode_metrics r m) =
        (if is_malformed (decode_err r m) then Malformed m + 1 else Malformed m)"
    by (rule Decode_malformed_count)
qed

definition input_S2 :: Reader where
  "input_S2 = \<lparr>rdata = [0x00, 0x00, 0x00, 0x01, 0x09], rerr = EOF\<rparr>"

definition input_S3 :: Reader where
  "input_S3 = \<lparr>rdata = [0x00, 0x00, 0x00, 0x02, 0x05, 0x01, 0x02, 0x03], rerr = EOF\<rparr>"

theorem cnl_decode_error_discipline_witness:
  "decode_err input_S2 snapshot0 = Some (ErrInvalidLength 9)
   \<and> Malformed (decode_metrics input_S2 snapshot0) = 1
   \<and> decode_err input_S3 snapshot0 = Some ErrTruncatedFrame
   \<and> Malformed (decode_metrics input_S3 snapshot0) = 1"
  using cnl_decode_error_discipline [of input_S2 snapshot0]
    cnl_decode_error_discipline [of input_S3 snapshot0]
  by (simp add: input_S2_def input_S3_def snapshot0_def)

text \<open>
  Claim C10. On an input that ends exactly at a frame boundary \<^verbatim>\<open>Decode\<close> returns
  \<^verbatim>\<open>io.EOF\<close> itself; on an input that ends after one to three identifier bytes it returns
  \<^verbatim>\<open>io.ErrUnexpectedEOF\<close>, which is neither the invalid-length nor the truncated kind.
  The malformed counter is untouched in both cases.
\<close>

theorem cnl_decode_end_of_stream:
  "(rdata r = [] \<and> rerr r = EOF
      \<longrightarrow> decode_err r m = Some (ErrIO EOF) \<and> decode_metrics r m = m)
   \<and> (0 < length (rdata r) \<and> length (rdata r) < 4 \<and> rerr r = EOF
      \<longrightarrow> decode_err r m = Some (ErrIO ErrUnexpectedEOF)
          \<and> decode_err r m \<noteq> Some ErrTruncatedFrame
          \<and> (\<forall>k. decode_err r m \<noteq> Some (ErrInvalidLength k))
          \<and> decode_metrics r m = m)"
proof (intro conjI impI)
  assume "rdata r = [] \<and> rerr r = EOF"
  then have l: "length (rdata r) < 4" and e: "rdata r = []" "rerr r = EOF" by simp_all
  from Decode_lt4 [OF l, of m] e
  show "decode_err r m = Some (ErrIO EOF)" and "decode_metrics r m = m"
    by (auto simp: decode_err_def decode_metrics_def)
next
  assume "0 < length (rdata r) \<and> length (rdata r) < 4 \<and> rerr r = EOF"
  then have l: "length (rdata r) < 4" and e: "rdata r \<noteq> []" "rerr r = EOF" by auto
  from Decode_lt4 [OF l, of m] e
  have 1: "decode_err r m = Some (ErrIO ErrUnexpectedEOF)" and 2: "decode_metrics r m = m"
    by (auto simp: decode_err_def decode_metrics_def)
  show "decode_err r m = Some (ErrIO ErrUnexpectedEOF)" by (rule 1)
  show "decode_err r m \<noteq> Some ErrTruncatedFrame" by (simp add: 1)
  show "\<forall>k. decode_err r m \<noteq> Some (ErrInvalidLength k)" by (simp add: 1)
  show "decode_metrics r m = m" by (rule 2)
qed

theorem cnl_decode_end_of_stream_witness:
  "decode_err \<lparr>rdata = [], rerr = EOF\<rparr> snapshot0 = Some (ErrIO EOF)
   \<and> decode_metrics \<lparr>rdata = [], rerr = EOF\<rparr> snapshot0 = snapshot0
   \<and> decode_err \<lparr>rdata = [0x00, 0x00], rerr = EOF\<rparr> snapshot0 = Some (ErrIO ErrUnexpectedEOF)
   \<and> decode_metrics \<lparr>rdata = [0x00, 0x00], rerr = EOF\<rparr> snapshot0 = snapshot0"
  using cnl_decode_end_of_stream [of "\<lparr>rdata = [], rerr = EOF\<rparr>" snapshot0]
    cnl_decode_end_of_stream [of "\<lparr>rdata = [0x00, 0x00], rerr = EOF\<rparr>" snapshot0]
  by simp

section \<open>Serial UART codec (package serial)\<close>

subsection \<open>The accumulator: Go's bytes.Buffer\<close>

text \<open>
  \<^verbatim>\<open>DecodeStream\<close> keeps the slice \<^verbatim>\<open>in.Bytes()\<close> while \<^verbatim>\<open>CompactBuffer\<close> resets and
  rewrites the buffer, so the buffer is modelled with its backing array. \<open>arr\<close> is the
  whole backing array of \<^verbatim>\<open>b.buf\<close> (its length is \<^verbatim>\<open>cap(b.buf)\<close>), \<open>blen\<close> is
  \<^verbatim>\<open>len(b.buf)\<close> and \<open>off\<close> is the read offset \<^verbatim>\<open>b.off\<close>. A slice of the buffer is a
  start index and a length into \<open>arr\<close>. The operations follow the standard library:
  \<^verbatim>\<open>Reset\<close> and a write that fits keep the array, \<^verbatim>\<open>grow\<close> slides the unread bytes to the
  front when they and the new bytes fit in half the capacity, and otherwise allocates
  \<^verbatim>\<open>max(len(b.buf) + n, 2 * cap(b.buf[b.off:]))\<close> zeroed bytes. The runtime may round an
  allocation up; the model takes the size asked for. The \<^verbatim>\<open>ErrTooLarge\<close> panic of a
  buffer beyond \<^verbatim>\<open>maxInt\<close> bytes is left out.
\<close>

record Buffer =
  arr :: "byte list"
  blen :: nat
  off :: nat

definition NewBuffer :: Buffer where
  "NewBuffer = \<lparr>arr = [], blen = 0, off = 0\<rparr>"

definition Bytes :: "Buffer \<Rightarrow> byte list" where
  "Bytes b = take (blen b - off b) (drop (off b) (arr b))"

definition BLen :: "Buffer \<Rightarrow> nat" where
  "BLen b = blen b - off b"

definition Reset :: "Buffer \<Rightarrow> Buffer" where
  "Reset b = b\<lparr>blen := 0, off := 0\<rparr>"

definition Next :: "nat \<Rightarrow> Buffer \<Rightarrow> Buffer" where
  "Next n b = b\<lparr>off := off b + min n (BLen b)\<rparr>"

text \<open>\<^verbatim>\<open>copy(a[m:], p)\<close> for a destination with room for \<open>p\<close>.\<close>

definition copy_at :: "nat \<Rightarrow> byte list \<Rightarrow> byte list \<Rightarrow> byte list" where
  "copy_at m p a = take m a @ p @ drop (m + length p) a"

definition grow :: "nat \<Rightarrow> Buffer \<Rightarrow> nat \<times> Buffer" where
  "grow n b =
     (let m = BLen b;
          b1 = (if m = 0 \<and> off b \<noteq> 0 then Reset b else b)
      in if n \<le> length (arr b1) - blen b1 then (blen b1, b1\<lparr>blen := blen b1 + n\<rparr>)
         else if arr b1 = [] \<and> n \<le> 64 then (0, b1\<lparr>arr := replicate 64 0, blen := n\<rparr>)
         else
           (let c = length (arr b1) in
            if n + m \<le> c div 2
            then (m, b1\<lparr>arr := copy_at 0 (Bytes b1) (arr b1), blen := m + n, off := 0\<rparr>)
            else (m, b1\<lparr>arr := Bytes b1 @ replicate (max (blen b1 + n) (2 * (c - off b1)) - m) 0,
                       blen := m + n, off := 0\<rparr>)))"

definition BWrite :: "byte list \<Rightarrow> Buffer \<Rightarrow> Buffer" where
  "BWrite p b =
     (case (if length p \<le> length (arr b) - blen b then (blen b, b\<lparr>blen := blen b + length p\<rparr>)
            else grow (length p) b) of
        (m, b') \<Rightarrow> b'\<lparr>arr := copy_at m p (arr b')\<rparr>)"

definition WriteByte :: "byte \<Rightarrow> Buffer \<Rightarrow> Buffer" where
  "WriteByte c b = BWrite [c] b"

subsection \<open>CompactBuffer and Encode\<close>

definition CompactBuffer :: "Buffer \<Rightarrow> bool \<times> Buffer" where
  "CompactBuffer b =
     (let data = Bytes b; cap_data = length (arr b) - off b
      in if length data < 1024 then (False, b)
         else if cap_data > 0 \<and> length data * 4 < cap_data then (True, BWrite data (Reset b))
         else (False, b))"



subsection \<open>DecodeStream\<close>

text \<open>\<^verbatim>\<open>bytes.Index(s, sep)\<close>: the first index where \<open>sep\<close> starts in \<open>s\<close>.\<close>

fun Index :: "byte list \<Rightarrow> byte list \<Rightarrow> nat option" where
  "Index [] sep = (if sep = [] then Some 0 else None)"
| "Index (x # xs) sep =
     (if take (length sep) (x # xs) = sep then Some 0 else map_option Suc (Index xs sep))"

definition header :: "byte list" where
  "header = [0x2D, 0xD4]"

definition minLn :: nat where
  "minLn = 6 + 0 + 1"

definition maxLn :: nat where
  "maxLn = 6 + 8 + 1"

text \<open>The frame built from a checked record \<open>data[0:req]\<close>.\<close>

definition parse_frame :: "byte list \<Rightarrow> nat \<Rightarrow> Frame" where
  "parse_frame data req =
     (let payload = take (req - 1 - 7) (drop 7 data)
      in \<lparr>CANID = Uint32 (take 4 (drop 3 data)) OR CAN_EFF_FLAG,
          Len = of_nat (length payload),
          Data = take 64 payload @ replicate (64 - length payload) 0\<rparr>)"

text \<open>
  The checksum \<^verbatim>\<open>uint(pre0) + uint(data[2]) + sum of data[3:req-1]\<close>, which stays far below
  the range of \<^verbatim>\<open>uint\<close>; \<^verbatim>\<open>byte(sum)\<close> is \<open>of_nat\<close>.
\<close>

definition checksum :: "byte list \<Rightarrow> nat \<Rightarrow> nat" where
  "checksum data req = 0x2D + unat (data ! 2) + sum_list (map unat (take (req - 1 - 3) (drop 3 data)))"

text \<open>
  \<^verbatim>\<open>serial.Codec.DecodeStream\<close>, one call per loop iteration. As in the source, the slice
  \<open>data\<close> is taken from the buffer before \<^verbatim>\<open>CompactBuffer\<close> runs and read after it: it is
  the window of the same start and length in the array that compaction leaves behind.
  \<open>out\<close> collects the frames handed to the callback.
\<close>

function DecodeStream :: "Buffer \<Rightarrow> Frame list \<Rightarrow> Snapshot \<Rightarrow> Buffer \<times> Frame list \<times> Snapshot" where
  "DecodeStream b out m =
     (let n = length (Bytes b); start = off b;
          b1 = snd (CompactBuffer b);
          data = take n (drop start (arr b1))
      in if n < 3 then (b1, out, m)
         else (case Index data header of
            None \<Rightarrow>
              (if BLen b1 > 1 then (WriteByte (data ! (n - 1)) (Reset b1), out, m)
               else (b1, out, m))
          | Some i \<Rightarrow>
              if i > 0 then DecodeStream (Next i b1) out m
              else if n < 4 then (b1, out, m)
              else
                (let ln = unat (data ! 2) in
                 if ln < minLn \<or> ln > maxLn then DecodeStream (Next 1 b1) out (IncMalformed m)
                 else
                   (let req = 3 + ln in
                    if n < req then (b1, out, m)
                    else if (of_nat (checksum data req) :: byte) \<noteq> data ! (req - 1)
                    then DecodeStream (Next 1 b1) out (IncMalformed m)
                    else DecodeStream (Next req b1) (out @ [parse_frame data req]) (IncSerialRx m)))))"
  by pat_completeness auto

lemma CompactBuffer_BLen:
  assumes "3 \<le> length (Bytes b)"
  shows "0 < BLen (snd (CompactBuffer b)) \<and> BLen (snd (CompactBuffer b)) \<le> BLen b"
proof -
  have le: "length (Bytes b) \<le> BLen b" by (simp add: Bytes_def BLen_def)
  show ?thesis
  proof (cases "fst (CompactBuffer b)")
    case False
    then have "snd (CompactBuffer b) = b"
      by (auto simp: CompactBuffer_def Let_def split: if_splits)
    then show ?thesis using assms le by simp
  next
    case True
    then have c: "snd (CompactBuffer b) = BWrite (Bytes b) (Reset b)"
      and fits: "length (Bytes b) * 4 < length (arr b) - off b"
      by (auto simp: CompactBuffer_def Let_def split: if_splits)
    have "length (Bytes b) \<le> length (arr b)" using fits by linarith
    then have "BLen (BWrite (Bytes b) (Reset b)) = length (Bytes b)"
      by (simp add: BWrite_def Reset_def BLen_def)
    then show ?thesis using c assms le by (cases "Bytes b") auto
  qed
qed

termination DecodeStream
proof (relation "measure (\<lambda>(b, out, m). BLen b)", goal_cases)
  case 1
  show ?case by simp
next
  case (2 b out m n start b1 data i)
  then have "3 \<le> length (Bytes b)" by simp
  from CompactBuffer_BLen [OF this] 2 show ?case
    by (simp add: Next_def BLen_def) linarith
next
  case (3 b out m n start b1 data i ln)
  then have "3 \<le> length (Bytes b)" by simp
  from CompactBuffer_BLen [OF this] 3 show ?case
    by (simp add: Next_def BLen_def) linarith
next
  case (4 b out m n start b1 data i ln req)
  then have "3 \<le> length (Bytes b)" by simp
  from CompactBuffer_BLen [OF this] 4 show ?case
    by (simp add: Next_def BLen_def) linarith
next
  case (5 b out m n start b1 data i ln req)
  then have "3 \<le> length (Bytes b)" by simp
  from CompactBuffer_BLen [OF this] 5 show ?case
    by (simp add: Next_def BLen_def minLn_def) linarith
qed

declare DecodeStream.simps [simp del]

subsection \<open>The serial receive loop\<close>

text \<open>
  One turn of the receive loop of \<^verbatim>\<open>initSerialBackend\<close> for a read that returned the bytes
  \<open>chunk\<close>: append them to the accumulator, decode, and replace an accumulator that is
  drained and has grown beyond \<^verbatim>\<open>largeBufferReclaimThreshold\<close>. A read of no bytes
  leaves everything as it is. \<open>out\<close> is what was handed to \<^verbatim>\<open>Hub.Broadcast\<close>.
\<close>

definition largeBufferReclaimThreshold :: nat where
  "largeBufferReclaimThreshold = 16 * 1024"

definition serialReadBufSize :: nat where
  "serialReadBufSize = 4096"

definition rx_read :: "byte list \<Rightarrow> Buffer \<times> Frame list \<times> Snapshot \<Rightarrow> Buffer \<times> Frame list \<times> Snapshot" where
  "rx_read chunk s =
     (case s of (acc, out, m) \<Rightarrow>
        if length chunk > 0 then
          (case DecodeStream (BWrite chunk acc) out m of (acc', out', m') \<Rightarrow>
             if BLen acc' = 0 \<and> length (arr acc') - off acc' > largeBufferReclaimThreshold
             then (NewBuffer, out', m') else (acc', out', m'))
        else s)"

text \<open>The loop over a sequence of reads, from a fresh accumulator.\<close>

definition rx_loop :: "byte list list \<Rightarrow> Snapshot \<Rightarrow> Buffer \<times> Frame list \<times> Snapshot" where
  "rx_loop chunks m = foldl (\<lambda>s chunk. rx_read chunk s) (NewBuffer, [], m) chunks"

subsection \<open>The iterations of DecodeStream, one lemma per way through the loop body\<close>


lemma DecodeStream_no_header:
  assumes "snd (CompactBuffer b) = b1"
    and "take (length (Bytes b)) (drop (off b) (arr b1)) = data"
    and "3 \<le> length (Bytes b)" and "Index data header = None" and "1 < BLen b1"
  shows "DecodeStream b out m = (WriteByte (data ! (length (Bytes b) - 1)) (Reset b1), out, m)"
  using assms by (subst DecodeStream.simps) (simp add: Let_def)

lemma DecodeStream_align:
  assumes "snd (CompactBuffer b) = b1"
    and "take (length (Bytes b)) (drop (off b) (arr b1)) = data"
    and "3 \<le> length (Bytes b)" and "Index data header = Some i" and "0 < i"
  shows "DecodeStream b out m = DecodeStream (Next i b1) out m"
  using assms by (subst DecodeStream.simps) (simp add: Let_def)

lemma DecodeStream_wait_record:
  assumes "snd (CompactBuffer b) = b1"
    and "take (length (Bytes b)) (drop (off b) (arr b1)) = data"
    and "4 \<le> length (Bytes b)" and "Index data header = Some 0"
    and "minLn \<le> unat (data ! 2)" and "unat (data ! 2) \<le> maxLn"
    and "length (Bytes b) < 3 + unat (data ! 2)"
  shows "DecodeStream b out m = (b1, out, m)"
  using assms by (subst DecodeStream.simps) (simp add: Let_def)

lemma DecodeStream_emit:
  assumes "snd (CompactBuffer b) = b1"
    and "take (length (Bytes b)) (drop (off b) (arr b1)) = data"
    and "Index data header = Some 0"
    and "minLn \<le> unat (data ! 2)" and "unat (data ! 2) \<le> maxLn"
    and "3 + unat (data ! 2) \<le> length (Bytes b)"
    and "of_nat (checksum data (3 + unat (data ! 2))) = data ! (3 + unat (data ! 2) - 1)"
  shows "DecodeStream b out m =
           DecodeStream (Next (3 + unat (data ! 2)) b1)
             (out @ [parse_frame data (3 + unat (data ! 2))]) (IncSerialRx m)"
proof -
  have "4 \<le> length (Bytes b)" using assms(4,6) by (simp add: minLn_def)
  then show ?thesis
    using assms by (subst DecodeStream.simps) (simp add: Let_def)
qed

lemma Index_zeros: "Index (replicate n 0) header = None"
  by (induction n) (simp_all add: header_def)

lemma Index_zeros_append:
  "Index (replicate n 0 @ xs) header = map_option (\<lambda>i. n + i) (Index xs header)"
proof (induction n)
  case 0
  show ?case by (simp add: option.map_ident)
next
  case (Suc n)
  have "take 2 (0 # replicate n 0 @ xs) \<noteq> [0x2D, 0xD4 :: byte]"
    by simp
  then show ?case using Suc by (simp add: header_def option.map_comp comp_def)
qed

subsection \<open>A run in which compaction changes what is decoded\<close>

text \<open>
  Three reads as the receive loop can see them: twice 4096 bytes of zeros (line noise, the
  size of the read buffer), then one valid record with \<open>LEN = 7\<close> followed by 1100 zeros.
  The noise leaves one byte in an accumulator whose array has grown to 8192 bytes, so the
  third read meets both conditions of \<^verbatim>\<open>CompactBuffer\<close>.
\<close>

definition noise :: "byte list" where
  "noise = replicate 4096 0"

definition frameA :: "byte list" where
  "frameA = [0x2D, 0xD4, 0x07, 0x00, 0x00, 0x00, 0x01, 0xAA, 0xBB, 0x9A]"

definition burst :: "byte list" where
  "burst = frameA @ replicate 1100 0"

lemma copy_at_zeros:
  "m + k \<le> n \<Longrightarrow> copy_at m (replicate k 0) (replicate n 0) = replicate n (0::byte)"
  by (simp add: copy_at_def min_def flip: replicate_add)

lemma DecodeStream_zeros:
  assumes "3 \<le> N" and "N \<le> C" and "\<not> (1024 \<le> N \<and> N * 4 < C)"
  shows "DecodeStream \<lparr>arr = replicate C 0, blen = N, off = 0\<rparr> out m =
           (\<lparr>arr = replicate C 0, blen = Suc 0, off = 0\<rparr>, out, m)"
proof -
  let ?b = "\<lparr>arr = replicate C 0, blen = N, off = 0\<rparr>"
  have bts: "Bytes ?b = replicate N 0" using assms(2) by (simp add: Bytes_def min_def)
  have c: "snd (CompactBuffer ?b) = ?b"
    using assms(2,3) by (auto simp: CompactBuffer_def bts Let_def)
  have d: "take (length (Bytes ?b)) (drop (off ?b) (arr ?b)) = replicate N 0"
    using assms(2) by (simp add: bts min_def)
  have w: "WriteByte (replicate N 0 ! (length (Bytes ?b) - 1)) (Reset ?b) =
             \<lparr>arr = replicate C 0, blen = Suc 0, off = 0\<rparr>"
    using assms(1,2) copy_at_zeros [of 0 1 C]
    by (simp add: WriteByte_def BWrite_def Reset_def bts)
  from DecodeStream_no_header [OF c d _ Index_zeros, of out m] assms(1) w
  show ?thesis by (simp add: bts BLen_def)
qed

lemma chunk1: "BWrite noise NewBuffer = \<lparr>arr = replicate 4096 0, blen = 4096, off = 0\<rparr>"
  using copy_at_zeros [of 0 4096 4096]
  by (simp add: BWrite_def grow_def NewBuffer_def noise_def BLen_def Bytes_def Let_def)

lemma chunk2:
  "BWrite noise \<lparr>arr = replicate 4096 0, blen = Suc 0, off = 0\<rparr> =
     \<lparr>arr = replicate 8192 0, blen = 4097, off = 0\<rparr>"
proof -
  have "replicate (Suc 8191) (0::byte) = 0 # replicate 8191 0" by (rule replicate_Suc)
  then have "0 # replicate 8191 0 = replicate 8192 (0::byte)" by simp
  then show ?thesis
    using copy_at_zeros [of 1 4096 8192]
    by (simp add: BWrite_def grow_def noise_def BLen_def Bytes_def Let_def)
qed

lemma zero_cons_replicate: "Suc n = k \<Longrightarrow> (0::byte) # replicate n 0 = replicate k 0"
  by auto

lemma length_burst: "length burst = 1110"
  by (simp add: burst_def frameA_def)

definition acc3 :: Buffer where
  "acc3 = \<lparr>arr = 0 # burst @ replicate 7081 0, blen = 1111, off = 0\<rparr>"

definition acc3s :: Buffer where
  "acc3s = \<lparr>arr = 0 # burst @ replicate 7081 0, blen = 1111, off = Suc 0\<rparr>"

lemma chunk3:
  "BWrite burst \<lparr>arr = replicate 8192 0, blen = Suc 0, off = 0\<rparr> = acc3"
  by (simp add: BWrite_def acc3_def length_burst copy_at_def)

lemma Index_burst: "Index burst header = Some 0"
  by (simp add: burst_def frameA_def header_def)

lemma Index_tl_burst: "Index (tl burst @ [0]) header = None"
proof -
  have "tl burst @ [0] = tl frameA @ replicate 1101 0"
    using zero_cons_replicate [of 1100 1101]
    by (simp add: burst_def frameA_def replicate_append_same)
  moreover have "Index (tl frameA @ replicate 1101 0) header = None"
    using Index_zeros [of 1101] by (simp add: frameA_def header_def)
  ultimately show ?thesis by simp
qed

text \<open>First iteration: compaction rewrites the array in place, the garbage byte is skipped.\<close>

lemma iter1:
  "DecodeStream acc3 out m = DecodeStream acc3s out m"
proof -
  have bts: "Bytes acc3 = 0 # burst"
    by (simp add: Bytes_def acc3_def length_burst)
  have c: "snd (CompactBuffer acc3) = acc3"
    by (simp add: CompactBuffer_def bts length_burst Let_def BWrite_def Reset_def copy_at_def)
       (simp add: acc3_def length_burst copy_at_def)
  have d: "take (length (Bytes acc3)) (drop (off acc3) (arr acc3)) = 0 # burst"
    by (simp add: bts length_burst) (simp add: acc3_def length_burst)
  have i: "Index (0 # burst) header = Some 1"
    using Index_burst by (simp add: header_def)
  from DecodeStream_align [OF c d _ i, of out m]
  show ?thesis by (simp add: bts length_burst Next_def BLen_def) (simp add: acc3_def acc3s_def)
qed

text \<open>
  Second iteration: the read offset is 1, compaction copies the unread bytes to the front
  of the same array, and the slice taken before it now shows them shifted by one byte.
\<close>

definition acc3c :: Buffer where
  "acc3c = \<lparr>arr = burst @ replicate 7082 0, blen = 1110, off = 0\<rparr>"

lemma Bytes_acc3s: "Bytes acc3s = burst"
  by (simp add: Bytes_def acc3s_def length_burst)

lemma compact2: "CompactBuffer acc3s = (True, acc3c)"
proof -
  have "drop 1109 burst = [0]"
    by (simp add: burst_def frameA_def)
  then have "copy_at 0 burst (0 # burst @ replicate 7081 0) = burst @ replicate 7082 0"
    using zero_cons_replicate [of 7081 7082] by (simp add: copy_at_def length_burst)
  then have w: "BWrite burst (Reset acc3s) = acc3c"
    by (simp add: BWrite_def Reset_def acc3s_def acc3c_def length_burst)
  have cap: "length (arr acc3s) - off acc3s = 8191"
    by (simp add: acc3s_def length_burst)
  show ?thesis
    by (simp add: CompactBuffer_def Bytes_acc3s length_burst Let_def cap w)
qed

lemma stale2:
  "take (length (Bytes acc3s)) (drop (off acc3s) (arr acc3c)) = tl burst @ [0]"
proof -
  have "drop (Suc 0) (burst @ replicate 7082 0) = tl burst @ replicate 7082 0"
    by (simp add: drop_Suc burst_def frameA_def)
  moreover have "length (tl burst) = 1109" by (simp add: length_burst)
  moreover have "off acc3s = Suc 0" by (simp add: acc3s_def)
  ultimately show ?thesis
    by (simp add: Bytes_acc3s length_burst acc3c_def)
qed

lemma iter2:
  "\<exists>acc'. DecodeStream acc3s out m = (acc', out, m)"
proof -
  have c: "snd (CompactBuffer acc3s) = acc3c" by (simp add: compact2)
  have l: "3 \<le> length (Bytes acc3s)" by (simp add: Bytes_acc3s length_burst)
  have bl: "1 < BLen acc3c" by (simp add: BLen_def acc3c_def)
  from DecodeStream_no_header [OF c stale2 l Index_tl_burst bl, of out m]
  show ?thesis by blast
qed

lemma chunked_run: "fst (snd (rx_loop [noise, noise, burst] m)) = []"
proof -
  have n: "0 < length noise" and b: "0 < length burst"
    by (simp_all add: noise_def length_burst)
  have d1: "DecodeStream \<lparr>arr = replicate 4096 0, blen = 4096, off = 0\<rparr> [] m =
              (\<lparr>arr = replicate 4096 0, blen = Suc 0, off = 0\<rparr>, [], m)"
    by (rule DecodeStream_zeros) simp_all
  have r1: "rx_read noise (NewBuffer, [], m) = (\<lparr>arr = replicate 4096 0, blen = Suc 0, off = 0\<rparr>, [], m)"
    using n by (simp add: rx_read_def chunk1 d1 BLen_def)
  have d2: "DecodeStream \<lparr>arr = replicate 8192 0, blen = 4097, off = 0\<rparr> [] m =
              (\<lparr>arr = replicate 8192 0, blen = Suc 0, off = 0\<rparr>, [], m)"
    by (rule DecodeStream_zeros) simp_all
  have r2: "rx_read noise (\<lparr>arr = replicate 4096 0, blen = Suc 0, off = 0\<rparr>, [], m) =
              (\<lparr>arr = replicate 8192 0, blen = Suc 0, off = 0\<rparr>, [], m)"
    using n by (simp add: rx_read_def chunk2 d2 BLen_def)
  from iter2 [of "[]" m] obtain acc' where
    d: "DecodeStream acc3s [] m = (acc', [], m)" by blast
  have r3: "fst (snd (rx_read burst (\<lparr>arr = replicate 8192 0, blen = Suc 0, off = 0\<rparr>, [], m))) = []"
    using b by (simp add: rx_read_def chunk3 iter1 d)
  show ?thesis
    using r3 by (simp add: rx_loop_def r1 r2)
qed

definition accS :: "nat \<Rightarrow> Buffer" where
  "accS k = \<lparr>arr = replicate 8192 0 @ burst, blen = 9302, off = k\<rparr>"

definition frameA_decoded :: Frame where
  "frameA_decoded = \<lparr>CANID = 0x80000001, Len = 2, Data = [0xAA, 0xBB] @ replicate 62 0\<rparr>"

lemma whole: "BWrite (noise @ noise @ burst) NewBuffer = accS 0"
proof -
  have nn: "noise @ noise @ burst = replicate 8192 0 @ burst"
    by (simp add: noise_def flip: replicate_add)
  show ?thesis
    unfolding nn
    by (simp add: BWrite_def grow_def NewBuffer_def BLen_def Bytes_def Let_def copy_at_def accS_def
        length_burst)
qed

lemma no_compact_accS: "k \<le> 9302 \<Longrightarrow> CompactBuffer (accS k) = (False, accS k)"
  by (simp add: CompactBuffer_def Bytes_def accS_def length_burst Let_def) arith

lemma single1: "DecodeStream (accS 0) out m = DecodeStream (accS 8192) out m"
proof -
  have c: "snd (CompactBuffer (accS 0)) = accS 0" by (simp add: no_compact_accS)
  have bts: "Bytes (accS 0) = replicate 8192 0 @ burst"
    by (simp add: Bytes_def accS_def length_burst)
  have d: "take (length (Bytes (accS 0))) (drop (off (accS 0)) (arr (accS 0))) = replicate 8192 0 @ burst"
    by (simp add: bts length_burst) (simp add: accS_def length_burst)
  have i: "Index (replicate 8192 0 @ burst) header = Some 8192"
    by (simp add: Index_zeros_append Index_burst)
  from DecodeStream_align [OF c d _ i, of out m]
  show ?thesis by (simp add: bts length_burst Next_def BLen_def) (simp add: accS_def)
qed

lemma single2:
  "DecodeStream (accS 8192) out m = DecodeStream (accS 8202) (out @ [frameA_decoded]) (IncSerialRx m)"
proof -
  have c: "snd (CompactBuffer (accS 8192)) = accS 8192" by (simp add: no_compact_accS)
  have bts: "Bytes (accS 8192) = burst"
    by (simp add: Bytes_def accS_def length_burst)
  have d: "take (length (Bytes (accS 8192))) (drop (off (accS 8192)) (arr (accS 8192))) = burst"
    by (simp add: bts length_burst) (simp add: accS_def length_burst)
  have ln: "unat (burst ! 2) = 7" by (simp add: burst_def frameA_def)
  have cs: "of_nat (checksum burst 10) = burst ! 9"
    by (simp add: checksum_def burst_def frameA_def)
  have pf: "parse_frame burst 10 = frameA_decoded"
    by (simp add: parse_frame_def burst_def frameA_def frameA_decoded_def Uint32_def CAN_EFF_FLAG_def)
  from DecodeStream_emit [OF c d Index_burst, of out m] ln cs pf
  show ?thesis
    by (simp add: minLn_def maxLn_def bts length_burst Next_def BLen_def) (simp add: accS_def)
qed

lemma single3: "\<exists>acc'. DecodeStream (accS 8202) out m = (acc', out, m)"
proof -
  have c: "snd (CompactBuffer (accS 8202)) = accS 8202" by (simp add: no_compact_accS)
  have bts: "Bytes (accS 8202) = replicate 1100 0"
    by (simp add: Bytes_def accS_def burst_def frameA_def)
  have d: "take (length (Bytes (accS 8202))) (drop (off (accS 8202)) (arr (accS 8202))) = replicate 1100 0"
    by (simp add: bts) (simp add: accS_def burst_def frameA_def)
  have l: "3 \<le> length (Bytes (accS 8202))" by (simp add: bts)
  have bl: "1 < BLen (accS 8202)" by (simp add: BLen_def accS_def)
  from DecodeStream_no_header [OF c d l Index_zeros bl, of out m]
  show ?thesis by blast
qed

lemma single_run: "fst (snd (rx_loop [noise @ noise @ burst] m)) = [frameA_decoded]"
proof -
  from single3 [of "[frameA_decoded]" "IncSerialRx m"] obtain acc' where
    d: "DecodeStream (accS 8202) [frameA_decoded] (IncSerialRx m) = (acc', [frameA_decoded], IncSerialRx m)"
    by blast
  have "DecodeStream (accS 0) [] m = (acc', [frameA_decoded], IncSerialRx m)"
    using single2 [of "[]" m] d by (simp add: single1)
  moreover have "0 < length (noise @ noise @ burst)" by (simp add: length_burst)
  ultimately show ?thesis
    by (simp add: rx_loop_def rx_read_def whole)
qed

subsection \<open>Decoding what the encoder writes\<close>















subsection \<open>The claims about the serial codec\<close>






definition record_len7 :: "byte list" where
  "record_len7 = [0x2D, 0xD4, 0x07, 0x00, 0x00, 0x00, 0x01, 0xAA, 0xBB, 0x9A]"

definition record_len15 :: "byte list" where
  "record_len15 = [0x2D, 0xD4, 0x0F, 0x00, 0x00, 0x00, 0x01,
                   0x01, 0x02, 0x03, 0x04, 0x05, 0x06, 0x07, 0x08, 0x09, 0x0A, 0x74]"

text \<open>
  Claim C3, evaluated on the code at both ends of the accepted \<open>LEN\<close> range. A record with
  \<open>LEN = 7\<close> is emitted as a frame of length 2, and one with \<open>LEN = 15\<close> as a frame of
  length 10: the payload is \<^verbatim>\<open>data[7:req-1]\<close>, that is \<open>LEN - 5\<close> bytes, not the 0 to 8
  bytes that the comments at \<^verbatim>\<open>minLn\<close>, \<^verbatim>\<open>maxLn\<close> and \<^verbatim>\<open>payload\<close> state.
\<close>

theorem serial_decode_len_range_evaluated:
  "fst (snd (rx_loop [record_len7] snapshot0))
     = [\<lparr>CANID = 0x80000001, Len = 2, Data = [0xAA, 0xBB] @ replicate 62 0\<rparr>]
   \<and> fst (snd (rx_loop [record_len15] snapshot0))
     = [\<lparr>CANID = 0x80000001, Len = 10,
         Data = [0x01, 0x02, 0x03, 0x04, 0x05, 0x06, 0x07, 0x08, 0x09, 0x0A] @ replicate 54 0\<rparr>]"
  by code_simp

definition S4_bytes :: "byte list" where
  "S4_bytes = [0xFF, 0xFF, 0x2D, 0xD4, 0x07, 0x00, 0x00, 0x00, 0x01, 0xAA, 0xDF]"

definition S4_frame :: Frame where
  "S4_frame = \<lparr>CANID = 0x00000001 OR CAN_EFF_FLAG, Len = 1, Data = 0xAA # replicate 63 0\<rparr>"

text \<open>
  Claim C4 as stated fails: the bytes of scenario S4 do not make the decoder emit the
  frame with identifier \<open>1 | EFF\<close>, length 1 and payload \<open>AA\<close>.
\<close>

theorem serial_S4_counterexample:
  "fst (snd (rx_loop [S4_bytes] snapshot0)) \<noteq> [S4_frame]"
  by code_simp

text \<open>
  Claim C4, amended. On the bytes of scenario S4 the decoder emits no frame. It discards
  the leading \<open>FF FF\<close> without touching the malformed counter and keeps the nine bytes
  from the preamble on: \<open>LEN = 7\<close> announces seven bytes after the length byte and only
  six have arrived.
\<close>

theorem serial_S4_waits:
  "fst (snd (rx_loop [S4_bytes] snapshot0)) = []
   \<and> snd (snd (rx_loop [S4_bytes] snapshot0)) = snapshot0
   \<and> Bytes (fst (rx_loop [S4_bytes] snapshot0))
       = [0x2D, 0xD4, 0x07, 0x00, 0x00, 0x00, 0x01, 0xAA, 0xDF]"
  by code_simp

text \<open>
  Claim C9, evaluated on the code. Fed as three reads, the input of the previous
  subsection yields no frame; fed as one read, the same bytes yield the frame of the
  record. In the third read the decoder takes its slice of the accumulator, compaction
  then rewrites the accumulator's array from the front while the read offset is 1, and the
  slice shows the unread bytes shifted by one, so the preamble is not found.
\<close>

theorem serial_chunking_changes_frames:
  "fst (snd (rx_loop [noise, noise, burst] m)) = []
   \<and> fst (snd (rx_loop [noise @ noise @ burst] m)) = [frameA_decoded]"
  by (simp add: chunked_run single_run)

end
